theory Spec2Isabelle
  imports Main
begin

section \<open>The random walk generator of \<open>randomwalk.py\<close> and \<open>use.py\<close>\<close>

text \<open>
  The repository has two files. \<open>randomwalk.py\<close> holds the class \<open>RandomWalk\<close>: its
  constructor stores the number of steps and the array of admissible step values, and
  calling an instance draws one walk. \<open>use.py\<close> holds the generator function
  \<open>use_randomwalk\<close>, which builds one \<open>RandomWalk\<close> and yields the requested number of
  walks under a \<open>tqdm\<close> progress bar.

  Conventions of the embedding:
  \<^item> Python integers (\<open>steps\<close>, \<open>size\<close>, \<open>total_walks\<close>) are \<open>int\<close>.
  \<^item> A one-dimensional NumPy integer array is an \<open>int list\<close>. NumPy stores 64-bit
    integers; the entries are modelled as mathematical integers, and array lengths
    are not bounded by memory. Lemma \<open>walk_coordinate_bound\<close> below shows that
    every coordinate of a walk is bounded by \<open>steps * size\<close>, so the two readings
    agree whenever that product is below \<open>2 ^ 63\<close>.
  \<^item> The process-wide random state of \<open>numpy.random\<close> is an explicit value \<open>rng\<close>:
    an arbitrary infinite sequence of raw draws and the number of draws consumed so
    far. Every outcome the library can produce is the outcome for some sequence
    (lemma \<open>random_choice_any_outcome\<close>).
  \<^item> The progress bar is a log of events.
  \<^item> An exception is a value: a computation returns \<open>Inl e\<close> when it raises \<open>e\<close>,
    together with the state it leaves behind.
\<close>

subsection \<open>Exceptions, the random state and the progress log\<close>

text \<open>
  Neither file defines or raises an exception of its own. The only exception that
  the modelled library calls raise is NumPy's \<open>ValueError\<close>.
\<close>

datatype error = ValueError

record rng =
  source :: "nat \<Rightarrow> nat"
  consumed :: nat

datatype event = BarCreated nat | BarAdvanced | BarClosed

record world =
  np_random :: rng
  progress :: "event list"

definition report :: "event \<Rightarrow> world \<Rightarrow> world" where
  "report ev w = w\<lparr>progress := progress w @ [ev]\<rparr>"

subsection \<open>The NumPy operations the code uses\<close>

text \<open>\<open>np.arange(a, b, 1)\<close>: the integers from \<open>a\<close> up to but excluding \<open>b\<close>.\<close>

definition arange :: "int \<Rightarrow> int \<Rightarrow> int list" where
  "arange a b = [a..b - 1]"

text \<open>
  \<open>np.random.choice(a, size=n)\<close> for a one-dimensional array \<open>a\<close>: it raises
  \<open>ValueError\<close> when \<open>a\<close> is empty unless no sample is taken, and when \<open>n\<close> is
  negative; both checks come before any draw. Otherwise it draws \<open>n\<close> indices into
  \<open>a\<close> and returns the entries there.
\<close>

definition random_choice :: "int list \<Rightarrow> int \<Rightarrow> rng \<Rightarrow> (error + int list) \<times> rng" where
  "random_choice a n g =
     (if a = [] \<and> n \<noteq> 0 then (Inl ValueError, g)
      else if n < 0 then (Inl ValueError, g)
      else (Inr (map (\<lambda>j. a ! (source g (consumed g + j) mod length a)) [0..<nat n]),
            g\<lparr>consumed := consumed g + nat n\<rparr>))"

text \<open>\<open>np.where(cond, arr, c)\<close> with a scalar \<open>c\<close>, entry by entry.\<close>

definition np_where :: "bool list \<Rightarrow> int list \<Rightarrow> int \<Rightarrow> int list" where
  "np_where cond arr c = map (\<lambda>(b, v). if b then v else c) (zip cond arr)"

text \<open>\<open>np.cumsum\<close>: the running sums.\<close>

fun cumsum_from :: "int \<Rightarrow> int list \<Rightarrow> int list" where
  "cumsum_from acc [] = []"
| "cumsum_from acc (v # vs) = (acc + v) # cumsum_from (acc + v) vs"

definition cumsum :: "int list \<Rightarrow> int list" where
  "cumsum arr = cumsum_from 0 arr"

text \<open>\<open>np.insert(arr, i, v)\<close> for an index \<open>i\<close> within the array.\<close>

definition np_insert :: "int list \<Rightarrow> nat \<Rightarrow> int \<Rightarrow> int list" where
  "np_insert arr i v = take i arr @ v # drop i arr"

subsection \<open>Class \<open>RandomWalk\<close>\<close>

record RandomWalk =
  steps :: int
  step_values :: "int list"

text \<open>
  \<open>__init__\<close> assigns the two attributes and checks nothing: it has no \<open>raise\<close>, and
  \<open>np.arange\<close> and \<open>np.concatenate\<close> accept every pair of integer bounds.
\<close>

definition RandomWalk_init :: "int \<Rightarrow> int \<Rightarrow> RandomWalk" where
  "RandomWalk_init steps_arg size_arg =
     \<lparr>steps = steps_arg,
      step_values = arange (- size_arg) 0 @ arange 1 (size_arg + 1)\<rparr>"

text \<open>
  The two per-axis step sequences of \<open>__call__\<close>, from the drawn directions and the
  drawn step sizes.
\<close>

definition x_steps_of :: "int list \<Rightarrow> int list \<Rightarrow> int list" where
  "x_steps_of directions drawn = np_where (map (\<lambda>d. d = 0) directions) drawn 0"

definition y_steps_of :: "int list \<Rightarrow> int list \<Rightarrow> int list" where
  "y_steps_of directions drawn = np_where (map (\<lambda>d. d = 1) directions) drawn 0"

text \<open>
  \<open>__call__\<close>: the object is passed in and handed back, the random state is threaded
  through both draws, and an exception of either draw ends the call with the random
  state as that draw left it.
\<close>

definition RandomWalk_call ::
  "RandomWalk \<Rightarrow> rng \<Rightarrow> (error + int list \<times> int list) \<times> RandomWalk \<times> rng" where
  "RandomWalk_call self g =
     (case random_choice [0, 1] (steps self) g of
        (Inl e, g1) \<Rightarrow> (Inl e, self, g1)
      | (Inr directions, g1) \<Rightarrow>
          (case random_choice (step_values self) (steps self) g1 of
             (Inl e, g2) \<Rightarrow> (Inl e, self, g2)
           | (Inr drawn, g2) \<Rightarrow>
               (let x_steps = x_steps_of directions drawn;
                    y_steps = y_steps_of directions drawn;
                    x_values = cumsum x_steps;
                    y_values = cumsum y_steps
                in (Inr (np_insert x_values 0 0, np_insert y_values 0 0), self, g2))))"

subsection \<open>The generator function \<open>use_randomwalk\<close>\<close>

record Result =
  x_coords :: "int list"
  y_coords :: "int list"

text \<open>
  A Python generator function runs none of its body when it is called: the call
  returns a generator object, and the body runs, from one \<open>yield\<close> to the next, each
  time the consumer asks for the next item. The generator object is therefore a
  state: \<open>Created\<close> holds the arguments of a body that has not started,
  \<open>Suspended\<close> holds the local \<open>randomwalk\<close>, the number of items already taken from
  \<open>range(total_walks)\<close> and \<open>total_walks\<close> of a body waiting at its \<open>yield\<close>, and
  \<open>Finished\<close> is a body that has returned or raised.
\<close>

datatype gen_state =
  Created int int int
| Suspended RandomWalk int int
| Finished

datatype outcome = Yield Result | StopIteration | Raise error

definition use_randomwalk :: "int \<Rightarrow> int \<Rightarrow> int \<Rightarrow> gen_state" where
  "use_randomwalk total_walks walk_step size_arg = Created total_walks walk_step size_arg"

text \<open>
  The head of the \<open>for\<close> loop: if \<open>range(total_walks)\<close> has an item left, the body
  calls \<open>randomwalk()\<close> and yields the result; otherwise the bar closes and the
  generator returns. An exception of the call unwinds the loop: the iterator of the
  bar is dropped, its \<open>finally\<close> clause closes the bar, and only then does the
  consumer see the exception; the generator is finished.
\<close>

definition loop_head :: "RandomWalk \<Rightarrow> int \<Rightarrow> int \<Rightarrow> world \<Rightarrow> outcome \<times> gen_state \<times> world" where
  "loop_head randomwalk i total_walks w =
     (if i < total_walks then
        (case RandomWalk_call randomwalk (np_random w) of
           (Inl e, randomwalk', g) \<Rightarrow>
             (Raise e, Finished, report BarClosed (w\<lparr>np_random := g\<rparr>))
         | (Inr (x, y), randomwalk', g) \<Rightarrow>
             (Yield \<lparr>x_coords = x, y_coords = y\<rparr>,
              Suspended randomwalk' (i + 1) total_walks,
              w\<lparr>np_random := g\<rparr>))
      else (StopIteration, Finished, report BarClosed w))"

text \<open>
  One request for the next item. The first request runs the body from its start: it
  constructs the \<open>RandomWalk\<close>, then creates the progress bar over
  \<open>range(total_walks)\<close> (whose length is \<open>max(0, total_walks)\<close>), then enters the loop.
  A later request resumes after the \<open>yield\<close>: the bar advances and the loop goes on.
\<close>

fun gen_next :: "gen_state \<Rightarrow> world \<Rightarrow> outcome \<times> gen_state \<times> world" where
  "gen_next (Created total_walks walk_step size_arg) w =
     (let randomwalk = RandomWalk_init walk_step size_arg
      in loop_head randomwalk 0 total_walks (report (BarCreated (nat total_walks)) w))"
| "gen_next (Suspended randomwalk i total_walks) w =
     loop_head randomwalk i total_walks (report BarAdvanced w)"
| "gen_next Finished w = (StopIteration, Finished, w)"

text \<open>The number of requests a generator can still answer with an item, plus one.\<close>

fun gen_fuel :: "gen_state \<Rightarrow> nat" where
  "gen_fuel (Created total_walks walk_step size_arg) = nat total_walks + 1"
| "gen_fuel (Suspended randomwalk i total_walks) = nat (total_walks - i)"
| "gen_fuel Finished = 0"

text \<open>
  The consumer that iterates the generator to its end (a \<open>for\<close> loop over it, or
  \<open>list(...)\<close>): the items yielded, the exception that ended the iteration if one did,
  and the state of the world afterwards.
\<close>

function consume :: "gen_state \<Rightarrow> world \<Rightarrow> Result list \<times> error option \<times> world" where
  "consume gen w =
     (case gen_next gen w of
        (Yield r, gen', w') \<Rightarrow>
          (case consume gen' w' of (rs, e, w'') \<Rightarrow> (r # rs, e, w''))
      | (StopIteration, gen', w') \<Rightarrow> ([], None, w')
      | (Raise e, gen', w') \<Rightarrow> ([], Some e, w'))"
  by pat_completeness auto
termination
proof (relation "measure (\<lambda>(gen, w). gen_fuel gen)")
  show "wf (measure (\<lambda>(gen, w). gen_fuel gen))" by simp
next
  fix gen :: gen_state and w :: world and x xa y xb ya
  assume "(xa, y) = gen_next gen w" and "xa = Yield x" and "(xb, ya) = y"
  then have n: "gen_next gen w = (Yield x, xb, ya)" by simp
  have "gen_fuel xb < gen_fuel gen"
  proof (cases gen)
    case (Created t s m)
    with n show ?thesis
      by (auto simp: loop_head_def Let_def split: if_splits prod.splits sum.splits)
  next
    case (Suspended rw i t)
    with n show ?thesis
      by (auto simp: loop_head_def Let_def split: if_splits prod.splits sum.splits)
  next
    case Finished
    with n show ?thesis by simp
  qed
  then show "((xb, ya), gen, w) \<in> measure (\<lambda>(gen, w). gen_fuel gen)" by simp
qed

declare consume.simps [simp del]

text \<open>The state of generator and world after \<open>n\<close> requests.\<close>

fun pulls :: "nat \<Rightarrow> gen_state \<Rightarrow> world \<Rightarrow> gen_state \<times> world" where
  "pulls 0 gen w = (gen, w)"
| "pulls (Suc n) gen w = (case gen_next gen w of (out, gen', w') \<Rightarrow> pulls n gen' w')"

text \<open>
  The results of \<open>n\<close> successive calls of one \<open>RandomWalk\<close>, each on the random state
  the call before it left.
\<close>

fun successive_calls :: "nat \<Rightarrow> RandomWalk \<Rightarrow> rng \<Rightarrow> (error + int list \<times> int list) list" where
  "successive_calls 0 self g = []"
| "successive_calls (Suc n) self g =
     (case RandomWalk_call self g of (r, self', g') \<Rightarrow> r # successive_calls n self' g')"


section \<open>Properties of the NumPy operations\<close>

lemma random_choice_ok:
  "0 \<le> n \<Longrightarrow> a \<noteq> [] \<or> n = 0 \<Longrightarrow>
   random_choice a n g =
     (Inr (map (\<lambda>j. a ! (source g (consumed g + j) mod length a)) [0..<nat n]),
      g\<lparr>consumed := consumed g + nat n\<rparr>)"
  by (auto simp: random_choice_def)

lemma random_choice_Inr:
  assumes "random_choice a n g = (Inr vs, g')"
  shows "length vs = nat n" and "set vs \<subseteq> set a" and "0 \<le> n"
    and "g' = g\<lparr>consumed := consumed g + nat n\<rparr>"
  using assms by (auto simp: random_choice_def split: if_splits)

text \<open>
  The model of the random state loses no behaviour: every array of \<open>n\<close> entries of
  \<open>a\<close> is what \<open>random_choice\<close> returns for some sequence of raw draws.
\<close>

lemma random_choice_any_outcome:
  assumes sub: "set vs \<subseteq> set a" and len: "length vs = nat n" and n: "0 \<le> n"
  shows "\<exists>src. fst (random_choice a n \<lparr>source = src, consumed = c\<rparr>) = Inr vs"
proof -
  have idx: "\<exists>i. i < length a \<and> a ! i = vs ! j" if "j < length vs" for j
  proof -
    from that sub have "vs ! j \<in> set a" by (meson nth_mem subsetD)
    then show ?thesis by (simp add: in_set_conv_nth)
  qed
  then obtain pick where pick: "\<And>j. j < length vs \<Longrightarrow> pick j < length a \<and> a ! pick j = vs ! j"
    by metis
  let ?src = "\<lambda>k. pick (k - c)"
  have ne: "a \<noteq> [] \<or> n = 0"
    using sub len n by (cases vs) auto
  have "map (\<lambda>j. a ! (?src (c + j) mod length a)) [0..<nat n] = vs"
    using pick len by (intro nth_equalityI) simp_all
  then have "fst (random_choice a n \<lparr>source = ?src, consumed = c\<rparr>) = Inr vs"
    using n ne by (simp add: random_choice_ok)
  then show ?thesis by blast
qed

lemma length_cumsum_from: "length (cumsum_from acc vs) = length vs"
  by (induction vs arbitrary: acc) auto

lemma nth_cumsum_from:
  "i < length vs \<Longrightarrow> cumsum_from acc vs ! i = acc + sum_list (take (Suc i) vs)"
proof (induction vs arbitrary: acc i)
  case Nil
  then show ?case by simp
next
  case (Cons v vs)
  then show ?case by (cases i) auto
qed

lemma nth_origin_cumsum:
  "i \<le> length vs \<Longrightarrow> (0 # cumsum vs) ! i = sum_list (take i vs)"
  by (cases i) (auto simp: cumsum_def nth_cumsum_from)

lemma step_cumsum:
  assumes "1 \<le> i" and "i \<le> length vs"
  shows "(0 # cumsum vs) ! i - (0 # cumsum vs) ! (i - 1) = vs ! (i - 1)"
proof -
  from assms obtain k where k: "i = Suc k" and kl: "k < length vs"
    by (cases i) auto
  have "sum_list (take (Suc k) vs) = sum_list (take k vs) + vs ! k"
    using kl by (simp add: take_Suc_conv_app_nth)
  moreover have "(0 # cumsum vs) ! Suc k = sum_list (take (Suc k) vs)"
    using kl by (intro nth_origin_cumsum) simp
  moreover have "(0 # cumsum vs) ! k = sum_list (take k vs)"
    using kl by (intro nth_origin_cumsum) simp
  ultimately show ?thesis
    using k by simp
qed

lemma cumsum_from_abs_bound:
  assumes "\<forall>v\<in>set vs. \<bar>v\<bar> \<le> b" and "c \<in> set (cumsum_from acc vs)"
  shows "\<bar>c\<bar> \<le> \<bar>acc\<bar> + int (length vs) * b"
  using assms
proof (induction vs arbitrary: acc)
  case Nil
  then show ?case by simp
next
  case (Cons v vs)
  from Cons.prems(1) have v: "\<bar>v\<bar> \<le> b" and vs: "\<forall>v\<in>set vs. \<bar>v\<bar> \<le> b"
    by simp_all
  then have b: "0 \<le> b" by linarith
  have lb: "0 \<le> int (length vs) * b" using b by simp
  from Cons.prems(2) consider "c = acc + v" | "c \<in> set (cumsum_from (acc + v) vs)"
    by auto
  then show ?case
  proof cases
    case 1
    then have "\<bar>c\<bar> \<le> \<bar>acc\<bar> + b" using v by linarith
    with lb show ?thesis by (simp add: algebra_simps)
  next
    case 2
    from Cons.IH [OF vs 2] have "\<bar>c\<bar> \<le> \<bar>acc + v\<bar> + int (length vs) * b" .
    with v show ?thesis by (simp add: algebra_simps)
  qed
qed

lemma cumsum_abs_bound:
  "\<forall>v\<in>set vs. \<bar>v\<bar> \<le> b \<Longrightarrow> c \<in> set (cumsum vs) \<Longrightarrow> \<bar>c\<bar> \<le> int (length vs) * b"
  using cumsum_from_abs_bound [of vs b c 0] by (simp add: cumsum_def)

lemma set_np_where: "set (np_where cond arr c) \<subseteq> insert c (set arr)"
proof
  fix v
  assume "v \<in> set (np_where cond arr c)"
  then obtain b u where "(b, u) \<in> set (zip cond arr)" and v: "v = (if b then u else c)"
    by (auto simp: np_where_def)
  then have "u \<in> set arr" by (meson set_zip_rightD)
  with v show "v \<in> insert c (set arr)" by simp
qed

lemma nth_x_steps_of:
  "k < length directions \<Longrightarrow> k < length drawn \<Longrightarrow>
   x_steps_of directions drawn ! k = (if directions ! k = 0 then drawn ! k else 0)"
  by (simp add: x_steps_of_def np_where_def)

lemma nth_y_steps_of:
  "k < length directions \<Longrightarrow> k < length drawn \<Longrightarrow>
   y_steps_of directions drawn ! k = (if directions ! k = 1 then drawn ! k else 0)"
  by (simp add: y_steps_of_def np_where_def)

lemma length_steps_of:
  "length (x_steps_of directions drawn) = min (length directions) (length drawn)"
  "length (y_steps_of directions drawn) = min (length directions) (length drawn)"
  by (simp_all add: x_steps_of_def y_steps_of_def np_where_def)

section \<open>Properties of \<open>RandomWalk\<close>\<close>

lemma steps_init [simp]: "steps (RandomWalk_init s m) = s"
  by (simp add: RandomWalk_init_def)

lemma set_step_values:
  "set (step_values (RandomWalk_init s m)) = {- m..- 1} \<union> {1..m}"
  by (auto simp: RandomWalk_init_def arange_def)

lemma step_values_nonempty: "1 \<le> m \<Longrightarrow> step_values (RandomWalk_init s m) \<noteq> []"
  using set_step_values [of s m]
  by (metis Un_iff atLeastAtMost_iff empty_iff empty_set order_refl)

lemma step_values_empty: "m < 1 \<Longrightarrow> step_values (RandomWalk_init s m) = []"
  by (simp add: RandomWalk_init_def arange_def)

lemma RandomWalk_call_self: "fst (snd (RandomWalk_call self g)) = self"
  by (simp add: RandomWalk_call_def Let_def split: prod.splits sum.splits)

lemma RandomWalk_call_Inr:
  assumes "RandomWalk_call self g = (Inr (x, y), self', g')"
  obtains directions drawn g1 where
    "random_choice [0, 1] (steps self) g = (Inr directions, g1)"
    "random_choice (step_values self) (steps self) g1 = (Inr drawn, g')"
    "x = 0 # cumsum (x_steps_of directions drawn)"
    "y = 0 # cumsum (y_steps_of directions drawn)"
    "self' = self"
  using assms
  by (auto simp: RandomWalk_call_def Let_def np_insert_def split: prod.splits sum.splits)

lemma RandomWalk_call_valid:
  assumes "0 \<le> steps self" and "step_values self \<noteq> []"
  shows "\<exists>directions drawn g1.
    random_choice [0, 1] (steps self) g = (Inr directions, g1) \<and>
    random_choice (step_values self) (steps self) g1 =
      (Inr drawn, g\<lparr>consumed := consumed g + 2 * nat (steps self)\<rparr>) \<and>
    RandomWalk_call self g =
      (Inr (0 # cumsum (x_steps_of directions drawn), 0 # cumsum (y_steps_of directions drawn)),
       self, g\<lparr>consumed := consumed g + 2 * nat (steps self)\<rparr>)"
  using assms
  by (simp add: RandomWalk_call_def random_choice_ok Let_def np_insert_def)

lemma RandomWalk_call_invalid:
  assumes "s < 0 \<or> (0 < s \<and> m < 1)"
  shows "RandomWalk_call (RandomWalk_init s m) g =
    (Inl ValueError, RandomWalk_init s m, g\<lparr>consumed := consumed g + nat s\<rparr>)"
  using assms
  by (auto simp: RandomWalk_call_def random_choice_def step_values_empty)

text \<open>
  What one step of a generated walk looks like: a direction \<open>d\<close>, a step value \<open>v\<close>
  from the admissible range, and the two coordinate differences they determine.
\<close>

lemma walk_steps:
  assumes call: "RandomWalk_call (RandomWalk_init s m) g = (Inr (x, y), self', g')"
    and i: "1 \<le> i" "i \<le> nat s"
  shows "\<exists>d v. (d = (0::int) \<or> d = 1) \<and> v \<in> {- m..- 1} \<union> {1..m} \<and>
    x ! i - x ! (i - 1) = (if d = 0 then v else 0) \<and>
    y ! i - y ! (i - 1) = (if d = 1 then v else 0)"
proof -
  from call obtain directions drawn g1 where
    d: "random_choice [0, 1] (steps (RandomWalk_init s m)) g = (Inr directions, g1)" and
    v: "random_choice (step_values (RandomWalk_init s m)) (steps (RandomWalk_init s m)) g1
          = (Inr drawn, g')" and
    x: "x = 0 # cumsum (x_steps_of directions drawn)" and
    y: "y = 0 # cumsum (y_steps_of directions drawn)"
    by (rule RandomWalk_call_Inr)
  have ld: "length directions = nat s" and sd: "set directions \<subseteq> {0, 1}"
    using random_choice_Inr(1,2) [OF d] by simp_all
  have lv: "length drawn = nat s" and sv: "set drawn \<subseteq> {- m..- 1} \<union> {1..m}"
    using random_choice_Inr(1,2) [OF v] by (simp_all add: set_step_values)
  from i have k: "i - 1 < nat s" by simp
  have "directions ! (i - 1) \<in> set directions"
    using k ld by (intro nth_mem) simp
  with sd have dk: "directions ! (i - 1) = 0 \<or> directions ! (i - 1) = 1" by auto
  have "drawn ! (i - 1) \<in> set drawn"
    using k lv by (intro nth_mem) simp
  with sv have vk: "drawn ! (i - 1) \<in> {- m..- 1} \<union> {1..m}" by blast
  have dx: "x ! i - x ! (i - 1) = (if directions ! (i - 1) = 0 then drawn ! (i - 1) else 0)"
    unfolding x using i k ld lv
    by (subst step_cumsum) (simp_all add: length_steps_of nth_x_steps_of)
  have dy: "y ! i - y ! (i - 1) = (if directions ! (i - 1) = 1 then drawn ! (i - 1) else 0)"
    unfolding y using i k ld lv
    by (subst step_cumsum) (simp_all add: length_steps_of nth_y_steps_of)
  from dk vk dx dy show ?thesis by blast
qed

text \<open>
  Every coordinate of a generated walk lies within \<open>steps * size\<close> of the origin. NumPy
  computes the running sums in 64-bit integers; below \<open>2 ^ 63\<close> these are the sums
  of the model.
\<close>

lemma walk_coordinate_bound:
  assumes call: "RandomWalk_call (RandomWalk_init s m) g = (Inr (x, y), self', g')"
    and c: "c \<in> set x \<union> set y"
  shows "\<bar>c\<bar> \<le> s * m"
proof -
  from call obtain directions drawn g1 where
    d: "random_choice [0, 1] (steps (RandomWalk_init s m)) g = (Inr directions, g1)" and
    v: "random_choice (step_values (RandomWalk_init s m)) (steps (RandomWalk_init s m)) g1
          = (Inr drawn, g')" and
    x: "x = 0 # cumsum (x_steps_of directions drawn)" and
    y: "y = 0 # cumsum (y_steps_of directions drawn)"
    by (rule RandomWalk_call_Inr)
  have ld: "length directions = nat s" and s: "0 \<le> s"
    using random_choice_Inr(1,3) [OF d] by simp_all
  have lv: "length drawn = nat s" and sv: "set drawn \<subseteq> {- m..- 1} \<union> {1..m}"
    using random_choice_Inr(1,2) [OF v] by (simp_all add: set_step_values)
  show ?thesis
  proof (cases "s = 0")
    case True
    with ld lv x y c show ?thesis
      by (simp add: x_steps_of_def y_steps_of_def np_where_def cumsum_def)
  next
    case False
    with s lv have "drawn \<noteq> []" by auto
    with sv have m: "1 \<le> m" by (cases drawn) auto
    have b: "\<bar>v\<bar> \<le> m" if "v \<in> insert 0 (set drawn)" for v
    proof -
      from that sv have "v = 0 \<or> v \<in> {- m..- 1} \<union> {1..m}" by blast
      with m show ?thesis by auto
    qed
    have bx: "\<forall>v\<in>set (x_steps_of directions drawn). \<bar>v\<bar> \<le> m"
      using set_np_where [of "map (\<lambda>d. d = 0) directions" drawn 0] b
      unfolding x_steps_of_def by blast
    have byy: "\<forall>v\<in>set (y_steps_of directions drawn). \<bar>v\<bar> \<le> m"
      using set_np_where [of "map (\<lambda>d. d = 1) directions" drawn 0] b
      unfolding y_steps_of_def by blast
    have l: "int (length (x_steps_of directions drawn)) = s"
      "int (length (y_steps_of directions drawn)) = s"
      using ld lv s by (simp_all add: length_steps_of)
    from c consider "c = 0" | "c \<in> set (cumsum (x_steps_of directions drawn))"
      | "c \<in> set (cumsum (y_steps_of directions drawn))"
      unfolding x y by auto
    then show ?thesis
    proof cases
      case 1
      with s m show ?thesis by simp
    next
      case 2
      from cumsum_abs_bound [OF bx 2] l show ?thesis by simp
    next
      case 3
      from cumsum_abs_bound [OF byy 3] l show ?thesis by simp
    qed
  qed
qed

text \<open>Unfolding rules that evaluate a call on concrete arguments.\<close>

lemmas walk_eval =
  RandomWalk_call_def random_choice_def RandomWalk_init_def arange_def x_steps_of_def
  y_steps_of_def np_where_def cumsum_def np_insert_def Let_def upt_conv_Cons upto_rec1
  numeral_2_eq_2 [symmetric]

lemma call_3_2:
  "RandomWalk_call (RandomWalk_init 3 2) \<lparr>source = \<lambda>i. i, consumed = 0\<rparr> =
     (Inr ([0, 2, 2, 1], [0, 0, - 2, - 2]), RandomWalk_init 3 2,
      \<lparr>source = \<lambda>i. i, consumed = 6\<rparr>)"
  by (simp add: walk_eval)


section \<open>Claims about one generated walk\<close>

text \<open>
  Claim C2. For every walk generated with \<open>max_magnitude \<ge> 1\<close> and every step index
  \<open>i\<close> from 1 to \<open>step_count\<close>, exactly one of the two differences
  \<open>x[i] - x[i-1]\<close> and \<open>y[i] - y[i-1]\<close> is non-zero; the other is zero.
\<close>

theorem single_axis_per_step:
  assumes call: "RandomWalk_call (RandomWalk_init s m) g = (Inr (x, y), self', g')"
    and "1 \<le> m" and i: "1 \<le> i" "i \<le> nat s"
  shows "(x ! i - x ! (i - 1) \<noteq> 0) \<noteq> (y ! i - y ! (i - 1) \<noteq> 0)"
proof -
  from walk_steps [OF call i] obtain d :: int and v where
    "d = 0 \<or> d = 1" and "v \<in> {- m..- 1} \<union> {1..m}"
    and "x ! i - x ! (i - 1) = (if d = 0 then v else 0)"
    and "y ! i - y ! (i - 1) = (if d = 1 then v else 0)"
    by blast
  then show ?thesis by auto
qed

text \<open>
  The walk of three steps with step values up to 2 drawn from the raw sequence
  0, 1, 2, ...: at step 2 only \<open>y\<close> moves.
\<close>

theorem single_axis_per_step_witness:
  "RandomWalk_call (RandomWalk_init 3 2) \<lparr>source = \<lambda>i. i, consumed = 0\<rparr> =
     (Inr ([0, 2, 2, 1], [0, 0, - 2, - 2]), RandomWalk_init 3 2,
      \<lparr>source = \<lambda>i. i, consumed = 6\<rparr>) \<and>
   (1::int) \<le> 2 \<and> (1::nat) \<le> 2 \<and> (2::nat) \<le> nat 3 \<and>
   ((([0, 2, 2, 1] :: int list) ! 2 - [0, 2, 2, 1] ! (2 - 1) \<noteq> 0) \<noteq>
    (([0, 0, - 2, - 2] :: int list) ! 2 - [0, 0, - 2, - 2] ! (2 - 1) \<noteq> 0))"
proof -
  have m: "(1::int) \<le> 2" and i: "(1::nat) \<le> 2" "(2::nat) \<le> nat 3" by simp_all
  from single_axis_per_step [OF call_3_2 m i] call_3_2 m i show ?thesis by blast
qed

text \<open>
  Claim C3. The step values computed by the constructor are exactly the integers of
  \<open>[-max_magnitude, -1]\<close> and \<open>[1, max_magnitude]\<close>, zero excluded; and so every
  non-zero coordinate difference between consecutive points of a generated walk has
  absolute value between 1 and \<open>max_magnitude\<close>.
\<close>

theorem magnitude_set_and_bound:
  "set (step_values (RandomWalk_init s m)) = {- m..- 1} \<union> {1..m} \<and>
   (\<forall>g x y self' g' i.
      RandomWalk_call (RandomWalk_init s m) g = (Inr (x, y), self', g') \<longrightarrow>
      1 \<le> i \<longrightarrow> i \<le> nat s \<longrightarrow>
      (x ! i - x ! (i - 1) \<noteq> 0 \<longrightarrow>
         1 \<le> \<bar>x ! i - x ! (i - 1)\<bar> \<and> \<bar>x ! i - x ! (i - 1)\<bar> \<le> m) \<and>
      (y ! i - y ! (i - 1) \<noteq> 0 \<longrightarrow>
         1 \<le> \<bar>y ! i - y ! (i - 1)\<bar> \<and> \<bar>y ! i - y ! (i - 1)\<bar> \<le> m))"
proof (intro conjI allI impI)
  show "set (step_values (RandomWalk_init s m)) = {- m..- 1} \<union> {1..m}"
    by (rule set_step_values)
next
  fix g x y self' g' and i :: nat
  assume call: "RandomWalk_call (RandomWalk_init s m) g = (Inr (x, y), self', g')"
    and i: "1 \<le> i" "i \<le> nat s"
  from walk_steps [OF call i] obtain d :: int and v where
    v: "v \<in> {- m..- 1} \<union> {1..m}"
    and dx: "x ! i - x ! (i - 1) = (if d = 0 then v else 0)"
    and dy: "y ! i - y ! (i - 1) = (if d = 1 then v else 0)"
    by blast
  from v have vk: "1 \<le> \<bar>v\<bar> \<and> \<bar>v\<bar> \<le> m" by auto
  {
    assume "x ! i - x ! (i - 1) \<noteq> 0"
    then show "1 \<le> \<bar>x ! i - x ! (i - 1)\<bar>" and "\<bar>x ! i - x ! (i - 1)\<bar> \<le> m"
      using vk unfolding dx by (simp_all split: if_splits)
  }
  {
    assume "y ! i - y ! (i - 1) \<noteq> 0"
    then show "1 \<le> \<bar>y ! i - y ! (i - 1)\<bar>" and "\<bar>y ! i - y ! (i - 1)\<bar> \<le> m"
      using vk unfolding dy by (simp_all split: if_splits)
  }
qed

text \<open>
  For \<open>max_magnitude = 2\<close> the step values are -2, -1, 1, 2, and the first step of
  the walk above moves \<open>x\<close> by 2.
\<close>

theorem magnitude_set_and_bound_witness:
  "set (step_values (RandomWalk_init 3 2)) = {- 2..- 1} \<union> {1..2} \<and>
   RandomWalk_call (RandomWalk_init 3 2) \<lparr>source = \<lambda>i. i, consumed = 0\<rparr> =
     (Inr ([0, 2, 2, 1], [0, 0, - 2, - 2]), RandomWalk_init 3 2,
      \<lparr>source = \<lambda>i. i, consumed = 6\<rparr>) \<and>
   (1::nat) \<le> 1 \<and> (1::nat) \<le> nat 3 \<and>
   ([0, 2, 2, 1] :: int list) ! 1 - [0, 2, 2, 1] ! (1 - 1) \<noteq> 0 \<and>
   1 \<le> \<bar>([0, 2, 2, 1] :: int list) ! 1 - [0, 2, 2, 1] ! (1 - 1)\<bar> \<and>
   \<bar>([0, 2, 2, 1] :: int list) ! 1 - [0, 2, 2, 1] ! (1 - 1)\<bar> \<le> 2"
proof -
  have i: "(1::nat) \<le> 1" "(1::nat) \<le> nat 3" by simp_all
  have nz: "([0, 2, 2, 1] :: int list) ! 1 - [0, 2, 2, 1] ! (1 - 1) \<noteq> 0" by simp
  from magnitude_set_and_bound [of 3 2]
  have a: "set (step_values (RandomWalk_init 3 2)) = {- 2..- 1} \<union> {1..2}"
    and b: "\<And>g x y self' g' i.
      RandomWalk_call (RandomWalk_init 3 2) g = (Inr (x, y), self', g') \<Longrightarrow>
      1 \<le> i \<Longrightarrow> i \<le> nat 3 \<Longrightarrow> x ! i - x ! (i - 1) \<noteq> 0 \<Longrightarrow>
      1 \<le> \<bar>x ! i - x ! (i - 1)\<bar> \<and> \<bar>x ! i - x ! (i - 1)\<bar> \<le> 2"
    by blast+
  from b [OF call_3_2 i nz] a call_3_2 i nz show ?thesis by blast
qed

text \<open>
  Claim C4. For every valid configuration (\<open>step_count \<ge> 0\<close>, \<open>max_magnitude \<ge> 1\<close>) a
  call returns two coordinate sequences of the same length \<open>step_count + 1\<close>, both
  starting with 0, and entry \<open>i\<close> of each is the sum of the first \<open>i\<close> entries of
  the step sequence of its axis: the running sums with the origin put in front.
\<close>

theorem walk_lengths_origin_prefix_sums:
  assumes "0 \<le> s" and "1 \<le> m"
  shows "\<exists>directions drawn g1 g2 x y.
    random_choice [0, 1] s g = (Inr directions, g1) \<and>
    random_choice (step_values (RandomWalk_init s m)) s g1 = (Inr drawn, g2) \<and>
    RandomWalk_call (RandomWalk_init s m) g = (Inr (x, y), RandomWalk_init s m, g2) \<and>
    length x = nat s + 1 \<and> length y = nat s + 1 \<and> x ! 0 = 0 \<and> y ! 0 = 0 \<and>
    (\<forall>i\<le>nat s. x ! i = sum_list (take i (x_steps_of directions drawn)) \<and>
                y ! i = sum_list (take i (y_steps_of directions drawn)))"
proof -
  let ?rw = "RandomWalk_init s m"
  from assms have "0 \<le> steps ?rw" and "step_values ?rw \<noteq> []"
    by (simp_all add: step_values_nonempty)
  from RandomWalk_call_valid [OF this, of g] obtain directions drawn g1 where
    d: "random_choice [0, 1] s g = (Inr directions, g1)" and
    v: "random_choice (step_values ?rw) s g1 = (Inr drawn, g\<lparr>consumed := consumed g + 2 * nat s\<rparr>)" and
    c: "RandomWalk_call ?rw g =
      (Inr (0 # cumsum (x_steps_of directions drawn), 0 # cumsum (y_steps_of directions drawn)),
       ?rw, g\<lparr>consumed := consumed g + 2 * nat s\<rparr>)"
    by auto
  have ld: "length directions = nat s" using random_choice_Inr(1) [OF d] .
  have lv: "length drawn = nat s" using random_choice_Inr(1) [OF v] .
  let ?x = "0 # cumsum (x_steps_of directions drawn)"
  let ?y = "0 # cumsum (y_steps_of directions drawn)"
  have lx: "length ?x = nat s + 1" and ly: "length ?y = nat s + 1"
    using ld lv by (simp_all add: cumsum_def length_cumsum_from length_steps_of)
  have px: "\<forall>i\<le>nat s. ?x ! i = sum_list (take i (x_steps_of directions drawn)) \<and>
                ?y ! i = sum_list (take i (y_steps_of directions drawn))"
    using ld lv by (auto intro!: nth_origin_cumsum simp: length_steps_of)
  have o: "?x ! 0 = 0" "?y ! 0 = 0" by simp_all
  from d v c lx ly o px show ?thesis by blast
qed

theorem walk_lengths_origin_prefix_sums_witness:
  "(0::int) \<le> 3 \<and> (1::int) \<le> 2 \<and>
   (\<exists>directions drawn g1 g2 x y.
    random_choice [0, 1] 3 \<lparr>source = \<lambda>i. i, consumed = 0\<rparr> = (Inr directions, g1) \<and>
    random_choice (step_values (RandomWalk_init 3 2)) 3 g1 = (Inr drawn, g2) \<and>
    RandomWalk_call (RandomWalk_init 3 2) \<lparr>source = \<lambda>i. i, consumed = 0\<rparr> =
      (Inr (x, y), RandomWalk_init 3 2, g2) \<and>
    length x = nat 3 + 1 \<and> length y = nat 3 + 1 \<and> x ! 0 = 0 \<and> y ! 0 = 0 \<and>
    (\<forall>i\<le>nat 3. x ! i = sum_list (take i (x_steps_of directions drawn)) \<and>
                y ! i = sum_list (take i (y_steps_of directions drawn))))"
proof -
  have s: "(0::int) \<le> 3" and m: "(1::int) \<le> 2" by simp_all
  from walk_lengths_origin_prefix_sums [OF s m, of "\<lparr>source = \<lambda>i. i, consumed = 0\<rparr>"] s m
  show ?thesis by blast
qed

text \<open>
  Claim C8. For every \<open>RandomWalk\<close> constructed with \<open>step_count \<ge> 0\<close> and
  \<open>max_magnitude \<ge> 1\<close>, calling it succeeds, whatever the random state, and so does
  every one of any number of successive calls.
\<close>

theorem generate_never_fails:
  assumes "0 \<le> s" and "1 \<le> m"
  shows "(\<exists>walk. fst (RandomWalk_call (RandomWalk_init s m) g) = Inr walk) \<and>
         (\<forall>r \<in> set (successive_calls n (RandomWalk_init s m) g). \<exists>walk. r = Inr walk)"
proof -
  let ?rw = "RandomWalk_init s m"
  from assms have valid: "0 \<le> steps ?rw" "step_values ?rw \<noteq> []"
    by (simp_all add: step_values_nonempty)
  have one: "\<exists>walk g'. RandomWalk_call ?rw g = (Inr walk, ?rw, g')" for g
    using RandomWalk_call_valid [OF valid, of g] by blast
  have "\<forall>r \<in> set (successive_calls n ?rw g). \<exists>walk. r = Inr walk"
  proof (induction n arbitrary: g)
    case 0
    show ?case by simp
  next
    case (Suc n)
    from one [of g] obtain walk g' where "RandomWalk_call ?rw g = (Inr walk, ?rw, g')"
      by blast
    with Suc.IH [of g'] show ?case by simp
  qed
  with one [of g] show ?thesis by auto
qed

theorem generate_never_fails_witness:
  "(0::int) \<le> 3 \<and> (1::int) \<le> 2 \<and>
   (\<exists>walk. fst (RandomWalk_call (RandomWalk_init 3 2) \<lparr>source = \<lambda>i. i, consumed = 0\<rparr>) = Inr walk) \<and>
   successive_calls (Suc (Suc 0)) (RandomWalk_init 3 2) \<lparr>source = \<lambda>i. i, consumed = 0\<rparr> =
     [Inr ([0, 2, 2, 1], [0, 0, - 2, - 2]), Inr ([0, - 1, - 1, 1], [0, 0, 1, 1])]"
proof -
  have s: "(0::int) \<le> 3" and m: "(1::int) \<le> 2" by simp_all
  have e: "successive_calls (Suc (Suc 0)) (RandomWalk_init 3 2) \<lparr>source = \<lambda>i. i, consumed = 0\<rparr> =
     [Inr ([0, 2, 2, 1], [0, 0, - 2, - 2]), Inr ([0, - 1, - 1, 1], [0, 0, 1, 1])]"
    unfolding successive_calls.simps by (simp add: walk_eval)
  from generate_never_fails [OF s m, of "\<lparr>source = \<lambda>i. i, consumed = 0\<rparr>" "Suc (Suc 0)"] s m e
  show ?thesis by blast
qed


section \<open>Properties of the generator\<close>

lemma length_successive_calls: "length (successive_calls n self g) = n"
  by (induction n arbitrary: self g) (auto split: prod.splits)

lemma loop_head_exhausted:
  "\<not> i < t \<Longrightarrow> loop_head rw i t w = (StopIteration, Finished, report BarClosed w)"
  by (simp add: loop_head_def)

lemma loop_head_Inr:
  "i < t \<Longrightarrow> RandomWalk_call rw (np_random w) = (Inr (x, y), rw', g') \<Longrightarrow>
   loop_head rw i t w =
     (Yield \<lparr>x_coords = x, y_coords = y\<rparr>, Suspended rw' (i + 1) t, w\<lparr>np_random := g'\<rparr>)"
  by (simp add: loop_head_def)

lemma loop_head_state:
  "fst (snd (loop_head rw i t w)) = Finished \<or>
   fst (snd (loop_head rw i t w)) = Suspended rw (i + 1) t"
  using RandomWalk_call_self [of rw "np_random w"]
  by (auto simp: loop_head_def split: prod.splits sum.splits)

text \<open>One unfolding of the consumer, for each state of the generator.\<close>

lemma consume_Created:
  "consume (Created t s m) w =
     (case loop_head (RandomWalk_init s m) 0 t (report (BarCreated (nat t)) w) of
        (Yield r, gen', w') \<Rightarrow>
          (r # fst (consume gen' w'), fst (snd (consume gen' w')), snd (snd (consume gen' w')))
      | (StopIteration, gen', w') \<Rightarrow> ([], None, w')
      | (Raise e, gen', w') \<Rightarrow> ([], Some e, w'))"
  by (subst consume.simps) (simp add: case_prod_beta split: outcome.splits)

lemma consume_Suspended:
  "consume (Suspended rw i t) w =
     (case loop_head rw i t (report BarAdvanced w) of
        (Yield r, gen', w') \<Rightarrow>
          (r # fst (consume gen' w'), fst (snd (consume gen' w')), snd (snd (consume gen' w')))
      | (StopIteration, gen', w') \<Rightarrow> ([], None, w')
      | (Raise e, gen', w') \<Rightarrow> ([], Some e, w'))"
  by (subst consume.simps) (simp add: case_prod_beta split: outcome.splits)

lemmas batch_eval =
  use_randomwalk_def consume_Created consume_Suspended loop_head_def report_def

text \<open>
  Draining a suspended generator whose \<open>RandomWalk\<close> is valid: the items are the
  results of the remaining calls in order, no exception ends the iteration, the bar
  advances once per request and closes.
\<close>

lemma consume_Suspended_valid:
  assumes valid: "0 \<le> steps rw" "step_values rw \<noteq> []"
  shows "map (\<lambda>r. Inr (x_coords r, y_coords r)) (fst (consume (Suspended rw i t) w)) =
           successive_calls (nat (t - i)) rw (np_random w) \<and>
         fst (snd (consume (Suspended rw i t) w)) = None \<and>
         progress (snd (snd (consume (Suspended rw i t) w))) =
           progress w @ replicate (Suc (nat (t - i))) BarAdvanced @ [BarClosed] \<and>
         np_random (snd (snd (consume (Suspended rw i t) w))) =
           (np_random w)\<lparr>consumed := consumed (np_random w) + nat (t - i) * (2 * nat (steps rw))\<rparr>"
proof (induction "nat (t - i)" arbitrary: i w)
  case 0
  then have "\<not> i < t" by simp
  then have "consume (Suspended rw i t) w = ([], None, report BarClosed (report BarAdvanced w))"
    by (simp add: consume_Suspended loop_head_exhausted)
  with 0 show ?case by (simp add: report_def)
next
  case (Suc k)
  then have lt: "i < t" and k: "k = nat (t - (i + 1))" by simp_all
  let ?w1 = "report BarAdvanced w"
  from RandomWalk_call_valid [OF valid, of "np_random ?w1"] obtain x y where
    call: "RandomWalk_call rw (np_random ?w1) =
       (Inr (x, y), rw, (np_random ?w1)\<lparr>consumed := consumed (np_random ?w1) + 2 * nat (steps rw)\<rparr>)"
    by blast
  let ?g' = "(np_random ?w1)\<lparr>consumed := consumed (np_random ?w1) + 2 * nat (steps rw)\<rparr>"
  let ?w2 = "?w1\<lparr>np_random := ?g'\<rparr>"
  let ?rest = "consume (Suspended rw (i + 1) t) ?w2"
  have unfold: "consume (Suspended rw i t) w =
      (\<lparr>x_coords = x, y_coords = y\<rparr> # fst ?rest, fst (snd ?rest), snd (snd ?rest))"
    by (simp add: consume_Suspended loop_head_Inr [OF lt call])
  have n: "nat (t - i) = Suc k"
    using Suc(2) by simp
  have sc: "successive_calls (Suc k) rw (np_random w) =
      Inr (x, y) # successive_calls k rw ?g'"
    using call by (simp add: report_def)
  have ih: "map (\<lambda>r. Inr (x_coords r, y_coords r)) (fst ?rest) = successive_calls k rw ?g'"
    "fst (snd ?rest) = None"
    "progress (snd (snd ?rest)) = progress ?w2 @ replicate (Suc k) BarAdvanced @ [BarClosed]"
    "np_random (snd (snd ?rest)) = ?g'\<lparr>consumed := consumed ?g' + k * (2 * nat (steps rw))\<rparr>"
    using Suc(1) [OF k, of ?w2] k by simp_all
  have "map (\<lambda>r. Inr (x_coords r, y_coords r)) (fst (consume (Suspended rw i t) w)) =
           successive_calls (nat (t - i)) rw (np_random w)"
    unfolding unfold n sc using ih(1) by simp
  moreover have "fst (snd (consume (Suspended rw i t) w)) = None"
    unfolding unfold using ih(2) by simp
  moreover have "progress (snd (snd (consume (Suspended rw i t) w))) =
           progress w @ replicate (Suc (nat (t - i))) BarAdvanced @ [BarClosed]"
    unfolding unfold n using ih(3) by (simp add: report_def)
  moreover have "np_random (snd (snd (consume (Suspended rw i t) w))) =
           (np_random w)\<lparr>consumed := consumed (np_random w) + nat (t - i) * (2 * nat (steps rw))\<rparr>"
    unfolding unfold n using ih(4) by (simp add: report_def)
  ultimately show ?case by blast
qed

lemma consume_Created_valid:
  assumes "0 \<le> s" and "1 \<le> m"
  shows "map (\<lambda>r. Inr (x_coords r, y_coords r)) (fst (consume (Created t s m) w)) =
           successive_calls (nat t) (RandomWalk_init s m) (np_random w) \<and>
         fst (snd (consume (Created t s m) w)) = None \<and>
         progress (snd (snd (consume (Created t s m) w))) =
           progress w @ BarCreated (nat t) # replicate (nat t) BarAdvanced @ [BarClosed]"
proof (cases "0 < t")
  case False
  then show ?thesis
    by (simp add: consume_Created loop_head_exhausted report_def)
next
  case True
  let ?rw = "RandomWalk_init s m"
  let ?w1 = "report (BarCreated (nat t)) w"
  from assms have valid: "0 \<le> steps ?rw" "step_values ?rw \<noteq> []"
    by (simp_all add: step_values_nonempty)
  from RandomWalk_call_valid [OF valid, of "np_random ?w1"] obtain x y where
    call: "RandomWalk_call ?rw (np_random ?w1) =
       (Inr (x, y), ?rw, (np_random ?w1)\<lparr>consumed := consumed (np_random ?w1) + 2 * nat (steps ?rw)\<rparr>)"
    by blast
  let ?g' = "(np_random ?w1)\<lparr>consumed := consumed (np_random ?w1) + 2 * nat (steps ?rw)\<rparr>"
  let ?w2 = "?w1\<lparr>np_random := ?g'\<rparr>"
  let ?rest = "consume (Suspended ?rw (0 + 1) t) ?w2"
  have unfold: "consume (Created t s m) w =
      (\<lparr>x_coords = x, y_coords = y\<rparr> # fst ?rest, fst (snd ?rest), snd (snd ?rest))"
    by (simp add: consume_Created loop_head_Inr [OF True call])
  from True obtain k where n: "nat t = Suc k" and k: "nat (t - (0 + 1)) = k"
    by (cases "nat t") auto
  have sc: "successive_calls (nat t) ?rw (np_random w) =
      Inr (x, y) # successive_calls k ?rw ?g'"
    using call by (simp add: report_def n)
  have rp: "replicate (nat t) BarAdvanced = BarAdvanced # replicate k BarAdvanced"
    by (simp add: n)
  note ih = consume_Suspended_valid [OF valid, of "0 + 1" t ?w2, unfolded k]
  have "map (\<lambda>r. Inr (x_coords r, y_coords r)) (fst (consume (Created t s m) w)) =
           successive_calls (nat t) ?rw (np_random w)"
    unfolding unfold sc using ih by simp
  moreover have "fst (snd (consume (Created t s m) w)) = None"
    unfolding unfold using ih by simp
  moreover have "progress (snd (snd (consume (Created t s m) w))) =
           progress w @ BarCreated (nat t) # replicate (nat t) BarAdvanced @ [BarClosed]"
    unfolding unfold rp using ih by (simp add: report_def)
  ultimately show ?thesis by blast
qed

text \<open>The consumer's list, request by request.\<close>

lemma consume_pulls_nth:
  "k < length (fst (consume gen w)) \<Longrightarrow>
   fst (gen_next (fst (pulls k gen w)) (snd (pulls k gen w))) = Yield (fst (consume gen w) ! k)"
proof (induction k arbitrary: gen w)
  case 0
  then show ?case
    by (subst (asm) consume.simps, subst consume.simps)
       (auto split: prod.splits outcome.splits)
next
  case (Suc k)
  obtain out gen' w' where step: "gen_next gen w = (out, gen', w')"
    by (cases "gen_next gen w") auto
  show ?case
  proof (cases out)
    case (Yield r)
    have c: "consume gen w = (r # fst (consume gen' w'), snd (consume gen' w'))"
      by (subst consume.simps) (simp add: step Yield case_prod_beta)
    from Suc.prems have "k < length (fst (consume gen' w'))"
      by (simp add: c)
    from Suc.IH [OF this] show ?thesis
      by (simp add: step c)
  next
    case StopIteration
    with Suc.prems step show ?thesis
      by (subst (asm) consume.simps) simp
  next
    case (Raise e)
    with Suc.prems step show ?thesis
      by (subst (asm) consume.simps) simp
  qed
qed

lemma consume_pulls_end:
  "fst (snd (consume gen w)) = None \<Longrightarrow>
   fst (gen_next (fst (pulls (length (fst (consume gen w))) gen w))
                 (snd (pulls (length (fst (consume gen w))) gen w))) = StopIteration"
proof (induction gen w rule: consume.induct)
  case (1 gen w)
  obtain out gen' w' where step: "gen_next gen w = (out, gen', w')"
    by (cases "gen_next gen w") auto
  show ?case
  proof (cases out)
    case (Yield r)
    have c: "consume gen w = (r # fst (consume gen' w'), snd (consume gen' w'))"
      by (subst consume.simps) (simp add: step Yield case_prod_beta)
    from "1.prems" have "fst (snd (consume gen' w')) = None"
      by (simp add: c)
    from "1.IH" [OF step [symmetric] Yield refl this] show ?thesis
      by (simp add: step c)
  next
    case StopIteration
    have "consume gen w = ([], None, w')"
      by (subst consume.simps) (simp add: step StopIteration)
    then show ?thesis by (simp add: step StopIteration)
  next
    case (Raise e)
    with "1.prems" step show ?thesis
      by (subst (asm) consume.simps) simp
  qed
qed

text \<open>The states a generator made by \<open>use_randomwalk\<close> can reach.\<close>

lemma pulls_Suspended_state:
  "gen = Finished \<or> (\<exists>i. gen = Suspended rw i t) \<Longrightarrow>
   fst (pulls n gen w) = Finished \<or> (\<exists>i. fst (pulls n gen w) = Suspended rw i t)"
proof (induction n arbitrary: gen w)
  case 0
  then show ?case by simp
next
  case (Suc n)
  obtain out gen' w' where step: "gen_next gen w = (out, gen', w')"
    by (cases "gen_next gen w") auto
  have "gen' = Finished \<or> (\<exists>i. gen' = Suspended rw i t)"
  proof (cases "gen = Finished")
    case True
    with step show ?thesis by simp
  next
    case False
    with Suc.prems obtain i where "gen = Suspended rw i t" by blast
    with step have "loop_head rw i t (report BarAdvanced w) = (out, gen', w')" by simp
    with loop_head_state [of rw i t "report BarAdvanced w"] show ?thesis by auto
  qed
  from Suc.IH [OF this, of w'] show ?case by (simp add: step)
qed

lemma pulls_Created_state:
  "(n = 0 \<and> fst (pulls n (Created t s m) w) = Created t s m) \<or>
   fst (pulls n (Created t s m) w) = Finished \<or>
   (\<exists>i. fst (pulls n (Created t s m) w) = Suspended (RandomWalk_init s m) i t)"
proof (cases n)
  case 0
  then show ?thesis by simp
next
  case (Suc k)
  obtain out gen' w' where
    step: "loop_head (RandomWalk_init s m) 0 t (report (BarCreated (nat t)) w) = (out, gen', w')"
    by (cases "loop_head (RandomWalk_init s m) 0 t (report (BarCreated (nat t)) w)") auto
  have "gen' = Finished \<or> (\<exists>i. gen' = Suspended (RandomWalk_init s m) i t)"
    using step loop_head_state [of "RandomWalk_init s m" 0 t "report (BarCreated (nat t)) w"]
    by auto
  from pulls_Suspended_state [OF this, of k w'] show ?thesis
    by (simp add: Suc step)
qed

lemma gen_next_Yield_call:
  assumes "gen = Created t s m \<or> gen = Suspended (RandomWalk_init s m) i t"
    and "fst (gen_next gen w) = Yield r"
  shows "fst (RandomWalk_call (RandomWalk_init s m) (np_random w)) = Inr (x_coords r, y_coords r)"
  using assms
  by (auto simp: loop_head_def report_def split: if_splits prod.splits sum.splits)

section \<open>Claims about the batch\<close>

text \<open>
  Claim C5. For every non-negative \<open>total_walks\<close> and every valid configuration,
  iterating \<open>use_randomwalk\<close> yields exactly \<open>total_walks\<close> walks and ends without an
  exception; the \<open>k\<close>-th walk yielded is the result of the \<open>k\<close>-th call of the one
  \<open>RandomWalk\<close>, each request yields one walk and the request after the last one
  ends the iteration; with \<open>total_walks = 0\<close> the first request already ends it and
  nothing is yielded.
\<close>

theorem batch_yields_total_walks:
  assumes "0 \<le> t" and "0 \<le> s" and "1 \<le> m"
  shows "length (fst (consume (use_randomwalk t s m) w)) = nat t \<and>
         fst (snd (consume (use_randomwalk t s m) w)) = None \<and>
         map (\<lambda>r. Inr (x_coords r, y_coords r)) (fst (consume (use_randomwalk t s m) w)) =
           successive_calls (nat t) (RandomWalk_init s m) (np_random w) \<and>
         (\<forall>k<nat t.
            fst (gen_next (fst (pulls k (use_randomwalk t s m) w))
                          (snd (pulls k (use_randomwalk t s m) w))) =
              Yield (fst (consume (use_randomwalk t s m) w) ! k)) \<and>
         fst (gen_next (fst (pulls (nat t) (use_randomwalk t s m) w))
                       (snd (pulls (nat t) (use_randomwalk t s m) w))) = StopIteration \<and>
         (t = 0 \<longrightarrow> fst (gen_next (use_randomwalk t s m) w) = StopIteration \<and>
                    fst (consume (use_randomwalk t s m) w) = [])"
proof -
  let ?G = "use_randomwalk t s m"
  note v = consume_Created_valid [OF assms(2,3), of t w, folded use_randomwalk_def]
  from v have m: "map (\<lambda>r. Inr (x_coords r, y_coords r)) (fst (consume ?G w)) =
           successive_calls (nat t) (RandomWalk_init s m) (np_random w)"
    and e: "fst (snd (consume ?G w)) = None"
    by simp_all
  have "length (map (\<lambda>r. Inr (x_coords r, y_coords r) :: error + int list \<times> int list)
          (fst (consume ?G w))) = nat t"
    unfolding m by (rule length_successive_calls)
  then have l: "length (fst (consume ?G w)) = nat t"
    by simp
  have p: "\<forall>k<nat t. fst (gen_next (fst (pulls k ?G w)) (snd (pulls k ?G w))) =
              Yield (fst (consume ?G w) ! k)"
    using consume_pulls_nth [of _ ?G w] l by simp
  have d: "fst (gen_next (fst (pulls (nat t) ?G w)) (snd (pulls (nat t) ?G w))) = StopIteration"
    using consume_pulls_end [OF e] l by simp
  have z: "t = 0 \<longrightarrow> fst (gen_next ?G w) = StopIteration \<and> fst (consume ?G w) = []"
    using l d by auto
  from l e m p d z show ?thesis by blast
qed

text \<open>Two walks of three steps, drawn from the raw sequence 0, 1, 2, ...\<close>

theorem batch_yields_total_walks_witness:
  "(0::int) \<le> 2 \<and> (0::int) \<le> 3 \<and> (1::int) \<le> 2 \<and>
   length (fst (consume (use_randomwalk 2 3 2)
     \<lparr>np_random = \<lparr>source = \<lambda>i. i, consumed = 0\<rparr>, progress = []\<rparr>)) = nat 2 \<and>
   fst (snd (consume (use_randomwalk 2 3 2)
     \<lparr>np_random = \<lparr>source = \<lambda>i. i, consumed = 0\<rparr>, progress = []\<rparr>)) = None \<and>
   fst (consume (use_randomwalk 2 3 2)
     \<lparr>np_random = \<lparr>source = \<lambda>i. i, consumed = 0\<rparr>, progress = []\<rparr>) =
     [\<lparr>x_coords = [0, 2, 2, 1], y_coords = [0, 0, - 2, - 2]\<rparr>,
      \<lparr>x_coords = [0, - 1, - 1, 1], y_coords = [0, 0, 1, 1]\<rparr>]"
proof -
  have h: "(0::int) \<le> 2" "(0::int) \<le> 3" "(1::int) \<le> 2" by simp_all
  have e: "fst (consume (use_randomwalk 2 3 2)
     \<lparr>np_random = \<lparr>source = \<lambda>i. i, consumed = 0\<rparr>, progress = []\<rparr>) =
     [\<lparr>x_coords = [0, 2, 2, 1], y_coords = [0, 0, - 2, - 2]\<rparr>,
      \<lparr>x_coords = [0, - 1, - 1, 1], y_coords = [0, 0, 1, 1]\<rparr>]"
    by (simp add: batch_eval walk_eval)
  from batch_yields_total_walks [OF h,
    of "\<lparr>np_random = \<lparr>source = \<lambda>i. i, consumed = 0\<rparr>, progress = []\<rparr>"] h e
  show ?thesis by blast
qed

text \<open>
  Claim C6. A step count of zero is not an error:
  \<open>use_randomwalk(1, 0, 3)\<close> yields exactly one walk, \<open>x = [0]\<close>, \<open>y = [0]\<close>, and ends
  without an exception, whatever the random state.
\<close>

theorem degenerate_step_count:
  "consume (use_randomwalk 1 0 3) w =
     ([\<lparr>x_coords = [0], y_coords = [0]\<rparr>], None,
      w\<lparr>progress := progress w @ [BarCreated 1, BarAdvanced, BarClosed]\<rparr>)"
  by (simp add: batch_eval walk_eval)

theorem degenerate_step_count_witness:
  "consume (use_randomwalk 1 0 3)
     \<lparr>np_random = \<lparr>source = \<lambda>i. 7, consumed = 4\<rparr>, progress = []\<rparr> =
     ([\<lparr>x_coords = [0], y_coords = [0]\<rparr>], None,
      \<lparr>np_random = \<lparr>source = \<lambda>i. 7, consumed = 4\<rparr>,
       progress = [BarCreated 1, BarAdvanced, BarClosed]\<rparr>)"
  using degenerate_step_count
    [of "\<lparr>np_random = \<lparr>source = \<lambda>i. 7, consumed = 4\<rparr>, progress = []\<rparr>"]
  by simp

text \<open>
  Claim C10. For every \<open>total_walks \<le> 0\<close>, negative values included, and every
  configuration (construction succeeds for all of them), iterating \<open>use_randomwalk\<close>
  yields no walk and ends without an exception: the first request finds the range
  empty. No random draw is made.
\<close>

theorem nonpositive_total_yields_nothing:
  assumes "t \<le> 0"
  shows "consume (use_randomwalk t s m) w =
           ([], None, w\<lparr>progress := progress w @ [BarCreated 0, BarClosed]\<rparr>) \<and>
         fst (gen_next (use_randomwalk t s m) w) = StopIteration"
  using assms by (simp add: batch_eval)

theorem nonpositive_total_yields_nothing_witness:
  "(- 2 :: int) \<le> 0 \<and>
   consume (use_randomwalk (- 2) 5 0)
     \<lparr>np_random = \<lparr>source = \<lambda>i. i, consumed = 0\<rparr>, progress = []\<rparr> =
     ([], None,
      \<lparr>np_random = \<lparr>source = \<lambda>i. i, consumed = 0\<rparr>, progress = [BarCreated 0, BarClosed]\<rparr>) \<and>
   fst (gen_next (use_randomwalk (- 2) 5 0)
     \<lparr>np_random = \<lparr>source = \<lambda>i. i, consumed = 0\<rparr>, progress = []\<rparr>) = StopIteration"
proof -
  have h: "(- 2 :: int) \<le> 0" by simp
  from nonpositive_total_yields_nothing [OF h, of 5 0
    "\<lparr>np_random = \<lparr>source = \<lambda>i. i, consumed = 0\<rparr>, progress = []\<rparr>"] h
  show ?thesis by simp
qed

section \<open>Invalid configurations\<close>

text \<open>
  Claim C1 says that constructing a \<open>RandomWalk\<close> with \<open>step_count < 0\<close> or
  \<open>max_magnitude < 1\<close> raises \<open>InvalidConfiguration\<close> at once. It does not: for 5 steps
  and \<open>max_magnitude = 0\<close> the constructor returns an object with no step values,
  calling \<open>use_randomwalk\<close> returns a generator that has run nothing, and the failure
  is the \<open>ValueError\<close> of the second \<open>np.random.choice\<close>, raised by the first call of
  the object, after the bar was created and five directions were drawn; the bar is
  closed while the exception unwinds.
\<close>

theorem invalid_configuration_counterexample:
  "RandomWalk_init 5 0 = \<lparr>steps = 5, step_values = []\<rparr> \<and>
   use_randomwalk 1 5 0 = Created 1 5 0 \<and>
   RandomWalk_call (RandomWalk_init 5 0) \<lparr>source = \<lambda>i. i, consumed = 0\<rparr> =
     (Inl ValueError, RandomWalk_init 5 0, \<lparr>source = \<lambda>i. i, consumed = 5\<rparr>) \<and>
   consume (use_randomwalk 1 5 0)
     \<lparr>np_random = \<lparr>source = \<lambda>i. i, consumed = 0\<rparr>, progress = []\<rparr> =
     ([], Some ValueError,
      \<lparr>np_random = \<lparr>source = \<lambda>i. i, consumed = 5\<rparr>,
       progress = [BarCreated 1, BarClosed]\<rparr>)"
  by (simp add: batch_eval walk_eval)

text \<open>
  Claim C1, amended. The constructor checks nothing and never raises: it stores
  \<open>step_count\<close>, and for \<open>max_magnitude < 1\<close> an empty array of step values; calling
  \<open>use_randomwalk\<close> runs nothing. With \<open>step_count < 0\<close>, or with \<open>step_count > 0\<close> and
  \<open>max_magnitude < 1\<close>, every call of the object raises NumPy's \<open>ValueError\<close>; so for
  \<open>total_walks \<ge> 1\<close> the first request to the generator raises \<open>ValueError\<close>, and
  iterating it yields no walk.
\<close>

theorem invalid_configuration_deferred:
  "steps (RandomWalk_init s m) = s \<and>
   (m < 1 \<longrightarrow> step_values (RandomWalk_init s m) = []) \<and>
   use_randomwalk t s m = Created t s m \<and>
   (s < 0 \<or> (0 < s \<and> m < 1) \<longrightarrow>
      fst (RandomWalk_call (RandomWalk_init s m) g) = Inl ValueError \<and>
      (1 \<le> t \<longrightarrow>
         fst (gen_next (use_randomwalk t s m) w) = Raise ValueError \<and>
         fst (consume (use_randomwalk t s m) w) = [] \<and>
         fst (snd (consume (use_randomwalk t s m) w)) = Some ValueError))"
proof (intro conjI impI)
  show "steps (RandomWalk_init s m) = s"
    by simp
next
  assume "m < 1"
  then show "step_values (RandomWalk_init s m) = []"
    by (rule step_values_empty)
next
  show "use_randomwalk t s m = Created t s m"
    by (simp add: use_randomwalk_def)
next
  assume "s < 0 \<or> (0 < s \<and> m < 1)"
  then show "fst (RandomWalk_call (RandomWalk_init s m) g) = Inl ValueError"
    by (simp add: RandomWalk_call_invalid)
next
  assume inv: "s < 0 \<or> (0 < s \<and> m < 1)" and t: "1 \<le> t"
  from t RandomWalk_call_invalid [OF inv]
  show "fst (gen_next (use_randomwalk t s m) w) = Raise ValueError"
    and "fst (consume (use_randomwalk t s m) w) = []"
    and "fst (snd (consume (use_randomwalk t s m) w)) = Some ValueError"
    by (simp_all add: batch_eval)
qed

text \<open>
  Five steps and \<open>max_magnitude = 0\<close>, one walk asked for: the object is built, its
  call raises, and so does the first request to the generator.
\<close>

theorem invalid_configuration_deferred_witness:
  "steps (RandomWalk_init 5 0) = 5 \<and>
   (0::int) < 1 \<and> step_values (RandomWalk_init 5 0) = [] \<and>
   use_randomwalk 1 5 0 = Created 1 5 0 \<and>
   ((5::int) < 0 \<or> ((0::int) < 5 \<and> (0::int) < 1)) \<and>
   fst (RandomWalk_call (RandomWalk_init 5 0) \<lparr>source = \<lambda>i. i, consumed = 0\<rparr>) = Inl ValueError \<and>
   (1::int) \<le> 1 \<and>
   fst (gen_next (use_randomwalk 1 5 0)
     \<lparr>np_random = \<lparr>source = \<lambda>i. i, consumed = 0\<rparr>, progress = []\<rparr>) = Raise ValueError \<and>
   fst (consume (use_randomwalk 1 5 0)
     \<lparr>np_random = \<lparr>source = \<lambda>i. i, consumed = 0\<rparr>, progress = []\<rparr>) = [] \<and>
   fst (snd (consume (use_randomwalk 1 5 0)
     \<lparr>np_random = \<lparr>source = \<lambda>i. i, consumed = 0\<rparr>, progress = []\<rparr>)) = Some ValueError"
proof -
  have h: "(5::int) < 0 \<or> ((0::int) < 5 \<and> (0::int) < 1)" "(1::int) \<le> 1" by simp_all
  have m: "(0::int) < 1" by simp
  from invalid_configuration_deferred
    [where s = 5 and m = 0 and t = 1 and g = "\<lparr>source = \<lambda>i. i, consumed = 0\<rparr>"
       and w = "\<lparr>np_random = \<lparr>source = \<lambda>i. i, consumed = 0\<rparr>, progress = []\<rparr>"] h m
  show ?thesis by blast
qed

text \<open>
  Claim C7 says that with an invalid configuration the failure comes before any
  progress report and before any random draw. For 5 steps and \<open>max_magnitude = 0\<close> the
  first request fails after the bar has been created and after five draws; the log
  the consumer finds holds the creation of the bar and its closing.
\<close>

theorem fail_fast_counterexample:
  "fst (gen_next (use_randomwalk 1 5 0)
     \<lparr>np_random = \<lparr>source = \<lambda>i. 0, consumed = 0\<rparr>, progress = []\<rparr>) = Raise ValueError \<and>
   progress (snd (snd (gen_next (use_randomwalk 1 5 0)
     \<lparr>np_random = \<lparr>source = \<lambda>i. 0, consumed = 0\<rparr>, progress = []\<rparr>))) =
     [BarCreated 1, BarClosed] \<and>
   consumed (np_random (snd (snd (gen_next (use_randomwalk 1 5 0)
     \<lparr>np_random = \<lparr>source = \<lambda>i. 0, consumed = 0\<rparr>, progress = []\<rparr>)))) = 5"
  by (simp add: batch_eval walk_eval)

text \<open>
  Claim C7, amended. With \<open>step_count < 0\<close>, or \<open>step_count > 0\<close> and
  \<open>max_magnitude < 1\<close>, and \<open>total_walks \<ge> 1\<close>, the first request to the generator
  fails with \<open>ValueError\<close> after the progress bar has been created and after
  \<open>max(0, step_count)\<close> random draws: none when \<open>step_count < 0\<close>, the
  \<open>step_count\<close> directions otherwise. The bar is closed while the exception
  unwinds, so the log the consumer finds holds two events, the creation of the bar
  and its closing.
\<close>

theorem failure_after_bar_and_axis_draws:
  assumes "s < 0 \<or> (0 < s \<and> m < 1)" and "1 \<le> t"
  shows "gen_next (use_randomwalk t s m) w =
           (Raise ValueError, Finished,
            w\<lparr>np_random := (np_random w)\<lparr>consumed := consumed (np_random w) + nat s\<rparr>,
               progress := progress w @ [BarCreated (nat t), BarClosed]\<rparr>)"
  using assms RandomWalk_call_invalid [OF assms(1)]
  by (simp add: batch_eval)

theorem failure_after_bar_and_axis_draws_witness:
  "((- 1 :: int) < 0 \<or> ((0::int) < - 1 \<and> (2::int) < 1)) \<and> (1::int) \<le> 3 \<and>
   gen_next (use_randomwalk 3 (- 1) 2)
     \<lparr>np_random = \<lparr>source = \<lambda>i. i, consumed = 4\<rparr>, progress = []\<rparr> =
     (Raise ValueError, Finished,
      \<lparr>np_random = \<lparr>source = \<lambda>i. i, consumed = 4\<rparr>,
       progress = [BarCreated 3, BarClosed]\<rparr>)"
proof -
  have h: "(- 1 :: int) < 0 \<or> ((0::int) < - 1 \<and> (2::int) < 1)" "(1::int) \<le> 3" by simp_all
  from failure_after_bar_and_axis_draws [OF h,
    of "\<lparr>np_random = \<lparr>source = \<lambda>i. i, consumed = 4\<rparr>, progress = []\<rparr>"] h
  show ?thesis by simp
qed

section \<open>The stored configuration\<close>

text \<open>
  Claim C9. A call leaves the object as it was, with its \<open>steps\<close> and \<open>step_values\<close>,
  whether it succeeds or raises. A generator made by \<open>use_randomwalk\<close> holds, after
  any number of requests, the one \<open>RandomWalk\<close> that its first request constructed
  from the arguments, and every walk it yields is the result of calling that object.
\<close>

theorem configuration_fixed:
  "fst (snd (RandomWalk_call self g)) = self \<and>
   (\<forall>n. case fst (pulls n (use_randomwalk t s m) w) of
           Created a b c \<Rightarrow> n = 0
         | Suspended rw i t' \<Rightarrow> rw = RandomWalk_init s m \<and> t' = t
         | Finished \<Rightarrow> True) \<and>
   (\<forall>n r. fst (gen_next (fst (pulls n (use_randomwalk t s m) w))
                         (snd (pulls n (use_randomwalk t s m) w))) = Yield r \<longrightarrow>
          fst (RandomWalk_call (RandomWalk_init s m)
                 (np_random (snd (pulls n (use_randomwalk t s m) w)))) =
            Inr (x_coords r, y_coords r))"
proof (intro conjI allI impI)
  show "fst (snd (RandomWalk_call self g)) = self"
    by (rule RandomWalk_call_self)
next
  fix n
  from pulls_Created_state [of n t s m w]
  show "case fst (pulls n (use_randomwalk t s m) w) of
           Created a b c \<Rightarrow> n = 0
         | Suspended rw i t' \<Rightarrow> rw = RandomWalk_init s m \<and> t' = t
         | Finished \<Rightarrow> True"
    unfolding use_randomwalk_def by auto
next
  fix n r
  let ?gen = "fst (pulls n (use_randomwalk t s m) w)"
  let ?w = "snd (pulls n (use_randomwalk t s m) w)"
  assume y: "fst (gen_next ?gen ?w) = Yield r"
  from pulls_Created_state [of n t s m w]
  have "?gen = Created t s m \<or> ?gen = Finished \<or>
        (\<exists>i. ?gen = Suspended (RandomWalk_init s m) i t)"
    unfolding use_randomwalk_def by auto
  moreover have "?gen \<noteq> Finished"
    using y by auto
  ultimately obtain i where "?gen = Created t s m \<or> ?gen = Suspended (RandomWalk_init s m) i t"
    by auto
  from gen_next_Yield_call [OF this y]
  show "fst (RandomWalk_call (RandomWalk_init s m) (np_random ?w)) = Inr (x_coords r, y_coords r)" .
qed

text \<open>
  After the first of two walks the generator holds the object constructed from
  \<open>(3, 2)\<close>, and the second walk is the result of calling it.
\<close>

theorem configuration_fixed_witness:
  "fst (snd (RandomWalk_call (RandomWalk_init 3 2) \<lparr>source = \<lambda>i. i, consumed = 0\<rparr>)) =
     RandomWalk_init 3 2 \<and>
   fst (pulls (Suc 0) (use_randomwalk 2 3 2)
     \<lparr>np_random = \<lparr>source = \<lambda>i. i, consumed = 0\<rparr>, progress = []\<rparr>) =
     Suspended (RandomWalk_init 3 2) 1 2 \<and>
   fst (gen_next
     (fst (pulls (Suc 0) (use_randomwalk 2 3 2)
        \<lparr>np_random = \<lparr>source = \<lambda>i. i, consumed = 0\<rparr>, progress = []\<rparr>))
     (snd (pulls (Suc 0) (use_randomwalk 2 3 2)
        \<lparr>np_random = \<lparr>source = \<lambda>i. i, consumed = 0\<rparr>, progress = []\<rparr>))) =
     Yield \<lparr>x_coords = [0, - 1, - 1, 1], y_coords = [0, 0, 1, 1]\<rparr> \<and>
   fst (RandomWalk_call (RandomWalk_init 3 2)
     (np_random (snd (pulls (Suc 0) (use_randomwalk 2 3 2)
        \<lparr>np_random = \<lparr>source = \<lambda>i. i, consumed = 0\<rparr>, progress = []\<rparr>)))) =
     Inr ([0, - 1, - 1, 1], [0, 0, 1, 1])"
proof -
  let ?w = "\<lparr>np_random = \<lparr>source = \<lambda>i. i, consumed = 0\<rparr>, progress = []\<rparr>"
  let ?r = "\<lparr>x_coords = [0, - 1, - 1, 1], y_coords = [0, 0, 1, 1]\<rparr>"
  note c = configuration_fixed
    [where self = "RandomWalk_init 3 2" and g = "\<lparr>source = \<lambda>i. i, consumed = 0\<rparr>"
       and t = 2 and s = 3 and m = 2 and w = ?w]
  have p: "pulls (Suc 0) (use_randomwalk 2 3 2) ?w =
    (Suspended (RandomWalk_init 3 2) 1 2,
     \<lparr>np_random = \<lparr>source = \<lambda>i. i, consumed = 6\<rparr>, progress = [BarCreated 2]\<rparr>)"
    by (simp add: use_randomwalk_def loop_head_def report_def call_3_2)
  have y: "fst (gen_next (fst (pulls (Suc 0) (use_randomwalk 2 3 2) ?w))
                         (snd (pulls (Suc 0) (use_randomwalk 2 3 2) ?w))) = Yield ?r"
    unfolding p by (simp add: loop_head_def report_def walk_eval)
  note a = c [THEN conjunct1]
  note b = c [THEN conjunct2, THEN conjunct2, rule_format]
  from b [OF y] have "fst (RandomWalk_call (RandomWalk_init 3 2)
      (np_random (snd (pulls (Suc 0) (use_randomwalk 2 3 2) ?w)))) =
      Inr ([0, - 1, - 1, 1], [0, 0, 1, 1])"
    by simp
  with a p y show ?thesis by simp
qed

end
